theory Spec2Isabelle
  imports Complex_Main
begin

section \<open>Data model (pages/Index.tsx)\<close>

text \<open>
  \<^verbatim>\<open>export type ActivityType = 'squat' | 'desk-sitting';\<close>
  \<^verbatim>\<open>export type PostureStatus = 'good' | 'warning' | 'bad' | 'neutral';\<close>
\<close>

datatype ActivityType = Squat | DeskSitting

datatype PostureStatus = Good | Warning | Bad | Neutral

section \<open>JavaScript numbers\<close>

text \<open>
  A JavaScript number is an IEEE 754 binary64 value: a finite double, an infinity
  or \<^verbatim>\<open>NaN\<close>. A finite double is carried as the real number it denotes. The two
  zeros are not told apart: the only place where their sign could show is a division
  by zero, and the divisors of this program are array lengths, whose zero is \<open>+0\<close>.
\<close>

datatype jsnum = Num real | PosInf | NegInf | NaN

section \<open>Data model (pages/Index.tsx), continued\<close>

text \<open>
  \<^verbatim>\<open>interface PostureData\<close>. The timestamp is the integer number of milliseconds
  that \<^verbatim>\<open>Date.now()\<close> returns; the confidence is a JavaScript number. The optional
  field \<^verbatim>\<open>keyPoints?: any[]\<close> is never read by the code below and is left out.
\<close>

record PostureData =
  timestamp :: int
  status :: PostureStatus
  warnings :: "string list"
  confidence :: jsnum

section \<open>JavaScript arithmetic: rounding to the nearest double\<close>

text \<open>
  Every arithmetic operation of JavaScript computes the exact result and rounds it to
  the nearest double, ties to the even significand. The binade of a real \<open>x\<close> is
  found by halving or doubling \<open>|x|\<close> until it lies in \<open>[1, 2)\<close>: \<open>exponent x\<close> is
  \<open>floor (log2 |x|)\<close>, held at \<open>-1022\<close> below the normal range (the subnormal
  doubles share the spacing of the lowest binade) and at \<open>1024\<close> from \<open>2 ^ 1024\<close> on.
  The doubles of that binade are the multiples of \<open>ulp x\<close>; \<open>nearest x\<close> is the
  multiple nearest to \<open>x\<close>, and a result that reaches \<open>2 ^ 1024\<close> is an infinity.
\<close>

fun exp_up :: "nat \<Rightarrow> real \<Rightarrow> int" where
  "exp_up 0 x = 0"
| "exp_up (Suc n) x = (if x < 2 then 0 else 1 + exp_up n (x / 2))"

fun exp_down :: "nat \<Rightarrow> real \<Rightarrow> int" where
  "exp_down 0 x = 0"
| "exp_down (Suc n) x = (if 1 \<le> x then 0 else exp_down n (2 * x) - 1)"

definition exponent :: "real \<Rightarrow> int" where
  "exponent x = (if 1 \<le> \<bar>x\<bar> then exp_up 1024 \<bar>x\<bar> else exp_down 1022 \<bar>x\<bar>)"

definition round_even :: "real \<Rightarrow> int" where
  "round_even m =
     (let f = \<lfloor>m\<rfloor>; d = m - of_int f
      in if d < 1 / 2 then f
         else if 1 / 2 < d then f + 1
         else if even f then f else f + 1)"

definition ulp :: "real \<Rightarrow> real" where
  "ulp x = 2 powi (exponent x - 52)"

definition nearest :: "real \<Rightarrow> real" where
  "nearest x = of_int (round_even (x / ulp x)) * ulp x"

definition rnd :: "real \<Rightarrow> jsnum" where
  "rnd x =
     (if 2 ^ 1024 \<le> \<bar>nearest x\<bar> then (if 0 < x then PosInf else NegInf)
      else Num (nearest x))"

text \<open>The four operations and the comparison \<^verbatim>\<open><\<close>, with their IEEE special
  cases. A comparison with \<^verbatim>\<open>NaN\<close> is false.\<close>

fun js_add :: "jsnum \<Rightarrow> jsnum \<Rightarrow> jsnum" where
  "js_add NaN y = NaN"
| "js_add x NaN = NaN"
| "js_add (Num a) (Num b) = rnd (a + b)"
| "js_add (Num a) PosInf = PosInf"
| "js_add (Num a) NegInf = NegInf"
| "js_add PosInf NegInf = NaN"
| "js_add PosInf y = PosInf"
| "js_add NegInf PosInf = NaN"
| "js_add NegInf y = NegInf"

fun js_sub :: "jsnum \<Rightarrow> jsnum \<Rightarrow> jsnum" where
  "js_sub NaN y = NaN"
| "js_sub x NaN = NaN"
| "js_sub (Num a) (Num b) = rnd (a - b)"
| "js_sub (Num a) PosInf = NegInf"
| "js_sub (Num a) NegInf = PosInf"
| "js_sub PosInf PosInf = NaN"
| "js_sub PosInf y = PosInf"
| "js_sub NegInf NegInf = NaN"
| "js_sub NegInf y = NegInf"

fun js_mul :: "jsnum \<Rightarrow> jsnum \<Rightarrow> jsnum" where
  "js_mul NaN y = NaN"
| "js_mul x NaN = NaN"
| "js_mul (Num a) (Num b) = rnd (a * b)"
| "js_mul (Num a) PosInf = (if a = 0 then NaN else if 0 < a then PosInf else NegInf)"
| "js_mul (Num a) NegInf = (if a = 0 then NaN else if 0 < a then NegInf else PosInf)"
| "js_mul PosInf (Num b) = (if b = 0 then NaN else if 0 < b then PosInf else NegInf)"
| "js_mul NegInf (Num b) = (if b = 0 then NaN else if 0 < b then NegInf else PosInf)"
| "js_mul PosInf PosInf = PosInf"
| "js_mul PosInf NegInf = NegInf"
| "js_mul NegInf PosInf = NegInf"
| "js_mul NegInf NegInf = PosInf"

fun js_div :: "jsnum \<Rightarrow> jsnum \<Rightarrow> jsnum" where
  "js_div NaN y = NaN"
| "js_div x NaN = NaN"
| "js_div (Num a) (Num b) =
     (if b = 0 then (if a = 0 then NaN else if 0 < a then PosInf else NegInf)
      else rnd (a / b))"
| "js_div (Num a) PosInf = Num 0"
| "js_div (Num a) NegInf = Num 0"
| "js_div PosInf (Num b) = (if 0 \<le> b then PosInf else NegInf)"
| "js_div NegInf (Num b) = (if 0 \<le> b then NegInf else PosInf)"
| "js_div PosInf y = NaN"
| "js_div NegInf y = NaN"

fun js_less :: "jsnum \<Rightarrow> jsnum \<Rightarrow> bool" where
  "js_less NaN y = False"
| "js_less x NaN = False"
| "js_less (Num a) (Num b) = (a < b)"
| "js_less (Num a) PosInf = True"
| "js_less (Num a) NegInf = False"
| "js_less PosInf y = False"
| "js_less NegInf NegInf = False"
| "js_less NegInf y = True"

text \<open>An array length is an integer below \<open>2 ^ 32\<close>, which is a double.\<close>

definition js_of_nat :: "nat \<Rightarrow> jsnum" where
  "js_of_nat n = Num (real n)"

section \<open>The rolling buffer (pages/Index.tsx, handlePostureUpdate)\<close>

text \<open>
  \<^verbatim>\<open>xs.slice(-k)\<close> for \<open>k > 0\<close> starts at \<open>max (length xs - k) 0\<close> and runs to the
  end of the array.
\<close>

definition slice_last :: "nat \<Rightarrow> 'a list \<Rightarrow> 'a list" where
  "slice_last k xs = drop (length xs - k) xs"

text \<open>
  \<^verbatim>\<open>setPostureData(prev => [...prev.slice(-49), data]); // Keep last 50 readings\<close>
  The state is the buffer; the update returns the new buffer.
\<close>

definition handlePostureUpdate :: "PostureData list \<Rightarrow> PostureData \<Rightarrow> PostureData list" where
  "handlePostureUpdate prev data = slice_last 49 prev @ [data]"

text \<open>The buffer starts empty (\<^verbatim>\<open>useState<PostureData[]>([])\<close>); pushing a
  sequence of events applies the update once per event, in order.\<close>

definition initial_buffer :: "PostureData list" where
  "initial_buffer = []"

definition push_all :: "PostureData list \<Rightarrow> PostureData list" where
  "push_all events = foldl handlePostureUpdate initial_buffer events"

section \<open>The statistics (StatsPanel, the stats memo)\<close>

record Stats =
  totalReadings :: nat
  goodPosture :: nat
  warningPosture :: nat
  badPosture :: nat
  averageConfidence :: jsnum
  currentStreak :: nat
  longestStreak :: nat
  improvement :: jsnum

text \<open>
  \<^verbatim>\<open>for (let i = postureData.length - 1; i >= 0; i--)
    if (postureData[i].status === 'good') currentStreak++; else break;\<close>
  The second argument is \<open>i + 1\<close>: the loop ends when it reaches \<open>0\<close>.
\<close>

fun currentStreak_loop :: "PostureData list \<Rightarrow> nat \<Rightarrow> nat \<Rightarrow> nat" where
  "currentStreak_loop postureData 0 cur = cur"
| "currentStreak_loop postureData (Suc i) cur =
     (if status (postureData ! i) = Good
      then currentStreak_loop postureData i (cur + 1)
      else cur)"

text \<open>
  \<^verbatim>\<open>postureData.forEach(d => {
    if (d.status === 'good') { tempStreak++; longestStreak = Math.max(longestStreak, tempStreak); }
    else { tempStreak = 0; } });\<close>
\<close>

fun longestStreak_loop :: "PostureData list \<Rightarrow> nat \<Rightarrow> nat \<Rightarrow> nat" where
  "longestStreak_loop [] longest temp = longest"
| "longestStreak_loop (d # ds) longest temp =
     (if status d = Good
      then longestStreak_loop ds (max longest (temp + 1)) (temp + 1)
      else longestStreak_loop ds longest 0)"

definition count_status :: "PostureStatus \<Rightarrow> PostureData list \<Rightarrow> nat" where
  "count_status s ds = length (filter (\<lambda>d. status d = s) ds)"

definition stats :: "PostureData list \<Rightarrow> Stats" where
  "stats postureData =
     (if length postureData = 0 then
        \<lparr> totalReadings = 0, goodPosture = 0, warningPosture = 0, badPosture = 0,
          averageConfidence = Num 0, currentStreak = 0, longestStreak = 0,
          improvement = Num 0 \<rparr>
      else
        let total = length postureData;
            good = count_status Good postureData;
            warning = count_status Warning postureData;
            bad = count_status Bad postureData;
            avgConfidence =
              js_div (foldl (\<lambda>sum d. js_add sum (confidence d)) (Num 0) postureData)
                (js_of_nat total);
            cur = currentStreak_loop postureData (length postureData) 0;
            longest = longestStreak_loop postureData 0 0;
            halfPoint = total div 2;
            firstHalf = take halfPoint postureData;
            secondHalf = drop halfPoint postureData;
            firstHalfGood =
              js_div (js_of_nat (count_status Good firstHalf)) (js_of_nat (length firstHalf));
            secondHalfGood =
              js_div (js_of_nat (count_status Good secondHalf)) (js_of_nat (length secondHalf))
        in \<lparr> totalReadings = total, goodPosture = good, warningPosture = warning,
             badPosture = bad, averageConfidence = avgConfidence, currentStreak = cur,
             longestStreak = longest,
             improvement = js_mul (js_sub secondHalfGood firstHalfGood) (Num 100) \<rparr>)"

section \<open>The mock classifier (components/VideoCapture.tsx, analyzePosture)\<close>

text \<open>
  The two calls of \<^verbatim>\<open>Math.random()\<close> and the call of \<^verbatim>\<open>Date.now()\<close> are
  inputs: \<open>random\<close> is the draw that selects the status, \<open>random2\<close> the draw that
  gives the confidence (each the value of a finite double), \<open>now\<close> the clock. A
  decimal literal of the source denotes the double nearest to it, so \<^verbatim>\<open>0.3\<close> is
  \<open>rnd 0.3\<close>. The status and the warnings are assigned together in the source, so
  the model computes them as a pair.
\<close>

definition degree_sign :: string where
  "degree_sign = [CHR 0xC2, CHR 0xB0]"

definition analyze_status :: "ActivityType \<Rightarrow> real \<Rightarrow> PostureStatus \<times> string list" where
  "analyze_status activity random =
     (if activity = Squat then
        (if js_less (Num random) (rnd 0.3) then (Bad, [''Knee extends beyond toe''])
         else if js_less (Num random) (rnd 0.5) then (Warning, [''Back angle could be improved''])
         else (Good, []))
      else if activity = DeskSitting then
        (if js_less (Num random) (rnd 0.2) then (Bad, [''Neck angle > 30'' @ degree_sign])
         else if js_less (Num random) (rnd 0.4) then (Warning, [''Back not straight''])
         else (Good, []))
      else (Good, []))"

definition analyzePosture :: "ActivityType \<Rightarrow> real \<Rightarrow> real \<Rightarrow> int \<Rightarrow> PostureData" where
  "analyzePosture activity random random2 now =
     \<lparr> timestamp = now,
       status = fst (analyze_status activity random),
       warnings = snd (analyze_status activity random),
       confidence = js_add (js_mul (Num random2) (rnd 0.3)) (rnd 0.7) \<rparr>"

section \<open>Reference notions and sample inputs\<close>

text \<open>
  The rate of \<open>good\<close> events in a half and the trend, as the specification words
  them: the buffer is split at \<open>floor(total/2)\<close> and the trend is the difference of
  the two rates times 100. These are plain real quotients; they are compared with
  what \<open>stats\<close> computes.
\<close>

definition good_rate :: "PostureData list \<Rightarrow> real" where
  "good_rate ds = real (length (filter (\<lambda>d. status d = Good) ds)) / real (length ds)"

definition trend_spec :: "PostureData list \<Rightarrow> real" where
  "trend_spec buf =
     (good_rate (drop (length buf div 2) buf) - good_rate (take (length buf div 2) buf)) * 100"

text \<open>
  The same formula with the arithmetic of the code: each of the two quotients, the
  difference and the product is rounded to the nearest double.
\<close>

definition trend_double :: "PostureData list \<Rightarrow> real" where
  "trend_double buf =
     nearest (nearest (nearest (good_rate (drop (length buf div 2) buf))
                       - nearest (good_rate (take (length buf div 2) buf))) * 100)"

text \<open>
  The confidence formula \<open>r * 0.3 + 0.7\<close> with the arithmetic of the code: the two
  literals, the product and the sum are each rounded to the nearest double.
\<close>

definition confidence_double :: "real \<Rightarrow> real" where
  "confidence_double r = nearest (nearest (r * nearest 0.3) + nearest 0.7)"

text \<open>
  A run of good events: the \<open>n\<close> events of the buffer from index \<open>i\<close> on exist and
  all have the status \<open>good\<close>. A streak is such a run.
\<close>

definition is_good :: "PostureData \<Rightarrow> bool" where
  "is_good d = (status d = Good)"

definition good_run :: "PostureData list \<Rightarrow> nat \<Rightarrow> nat \<Rightarrow> bool" where
  "good_run buf i n = (i + n \<le> length buf \<and> list_all is_good (take n (drop i buf)))"

text \<open>Sample events: one with a given status, and \<open>n\<close> events told apart by
  their timestamps \<open>0, 1, \<dots>, n - 1\<close>.\<close>

definition event_of :: "PostureStatus \<Rightarrow> PostureData" where
  "event_of s = \<lparr> timestamp = 0, status = s, warnings = [], confidence = Num 1 \<rparr>"

text \<open>A window of 20 events: 6 good, 4 bad, 7 good, 3 bad.\<close>

definition sample_window :: "PostureData list" where
  "sample_window =
     map event_of
       [Good, Good, Good, Good, Good, Good, Bad, Bad, Bad, Bad,
        Good, Good, Good, Good, Good, Good, Good, Bad, Bad, Bad]"

definition sample_events :: "nat \<Rightarrow> PostureData list" where
  "sample_events n =
     map (\<lambda>i. \<lparr> timestamp = int i, status = Good, warnings = [], confidence = Num 1 \<rparr>)
       [0..<n]"

section \<open>The window\<close>

lemma push_all_snoc: "push_all (es @ [e]) = handlePostureUpdate (push_all es) e"
  by (simp add: push_all_def)

lemma push_all_drop: "push_all events = drop (length events - 50) events"
proof (induction events rule: rev_induct)
  case Nil
  show ?case by (simp add: push_all_def initial_buffer_def)
next
  case (snoc e es)
  have "length es - 50 + (length (drop (length es - 50) es) - 49) = Suc (length es) - 50"
    by simp
  then show ?case
    by (simp add: push_all_snoc snoc.IH handlePostureUpdate_def slice_last_def add.commute)
qed

lemma push_all_short: "length events \<le> 50 \<Longrightarrow> push_all events = events"
  by (simp add: push_all_drop)

text \<open>
  C3. After more than 50 pushes from the empty buffer, the buffer holds exactly the
  last 50 pushed events in their original order, so its length, which is the
  snapshot's total, is 50.
\<close>

theorem window_bound:
  "50 < length events \<Longrightarrow>
     push_all events = drop (length events - 50) events \<and>
     length (push_all events) = 50 \<and>
     totalReadings (stats (push_all events)) = 50"
  by (simp add: push_all_drop stats_def Let_def)

theorem window_bound_witness:
  "50 < length (sample_events 51) \<and>
   push_all (sample_events 51) = drop 1 (sample_events 51) \<and>
   length (push_all (sample_events 51)) = 50 \<and>
   totalReadings (stats (push_all (sample_events 51))) = 50 \<and>
   timestamp (hd (push_all (sample_events 51))) = 1 \<and>
   timestamp (last (push_all (sample_events 51))) = 50"
proof -
  have len: "length (sample_events 51) = 51"
    by (simp add: sample_events_def)
  then have h: "50 < length (sample_events 51)"
    by simp
  note wb = window_bound [OF h]
  have eq: "push_all (sample_events 51) = drop 1 (sample_events 51)"
    using wb len by simp
  have first: "timestamp (hd (push_all (sample_events 51))) = 1"
    unfolding eq by (simp add: hd_drop_conv_nth len) (simp add: sample_events_def)
  have lst: "timestamp (last (push_all (sample_events 51))) = 50"
    unfolding eq by (simp add: len) (simp add: sample_events_def last_map)
  show ?thesis
    using h wb eq first lst by blast
qed

section \<open>Counts\<close>

lemma count_status_total:
  "count_status Good ds + count_status Warning ds + count_status Bad ds
     + count_status Neutral ds = length ds"
proof (induction ds)
  case Nil
  show ?case by (simp add: count_status_def)
next
  case (Cons d ds)
  then show ?case
    by (cases "status d") (simp_all add: count_status_def)
qed

lemma stats_counts:
  "goodPosture (stats buf) = count_status Good buf \<and>
   warningPosture (stats buf) = count_status Warning buf \<and>
   badPosture (stats buf) = count_status Bad buf \<and>
   totalReadings (stats buf) = length buf"
  by (cases "buf = []") (simp_all add: stats_def Let_def count_status_def)

text \<open>
  C2, as stated, fails: the snapshot carries a count for \<open>good\<close>, \<open>warning\<close> and
  \<open>bad\<close> only, so after pushing a single \<open>neutral\<close> event its counts sum to 0 while
  its total is 1.
\<close>

theorem neutral_not_counted:
  "goodPosture (stats (push_all [event_of Neutral]))
     + warningPosture (stats (push_all [event_of Neutral]))
     + badPosture (stats (push_all [event_of Neutral]))
   \<noteq> totalReadings (stats (push_all [event_of Neutral]))"
  by (simp add: push_all_def initial_buffer_def handlePostureUpdate_def slice_last_def
      stats_def Let_def count_status_def event_of_def)

text \<open>
  C2, amended. For every reachable buffer, the three counts of the snapshot (good,
  warning, bad) together with the number of \<open>neutral\<close> events of the buffer sum to the
  snapshot's total; the three counts alone sum to the total exactly when the buffer
  holds no \<open>neutral\<close> event.
\<close>

theorem count_conservation:
  "goodPosture (stats (push_all events)) + warningPosture (stats (push_all events))
     + badPosture (stats (push_all events)) + count_status Neutral (push_all events)
   = totalReadings (stats (push_all events)) \<and>
   ((goodPosture (stats (push_all events)) + warningPosture (stats (push_all events))
       + badPosture (stats (push_all events)) = totalReadings (stats (push_all events)))
    = (count_status Neutral (push_all events) = 0))"
proof -
  have "count_status Good (push_all events) + count_status Warning (push_all events)
          + count_status Bad (push_all events) + count_status Neutral (push_all events)
        = length (push_all events)"
    by (rule count_status_total)
  then show ?thesis
    unfolding stats_counts [THEN conjunct1] stats_counts [THEN conjunct2, THEN conjunct1]
      stats_counts [THEN conjunct2, THEN conjunct2, THEN conjunct1]
      stats_counts [THEN conjunct2, THEN conjunct2, THEN conjunct2]
    by arith
qed

section \<open>Rounding to the nearest double\<close>

subsection \<open>round_even\<close>

lemma round_even_error: "\<bar>of_int (round_even m) - m\<bar> \<le> 1 / 2"
  unfolding round_even_def Let_def by (auto simp: abs_if) linarith+

lemma round_even_of_int: "round_even (of_int k) = k"
  by (simp add: round_even_def)

lemma round_even_le: "m < of_int k + 1 / 2 \<Longrightarrow> round_even m \<le> k"
  unfolding round_even_def Let_def by (auto split: if_splits) linarith+

lemma round_even_ge: "of_int k - 1 / 2 < m \<Longrightarrow> k \<le> round_even m"
  unfolding round_even_def Let_def by (auto split: if_splits) linarith+

subsection \<open>exponent\<close>

lemma exp_down_le0: "exp_down n x \<le> 0"
proof (induction n arbitrary: x)
  case 0
  show ?case by simp
next
  case (Suc n)
  have "exp_down n (2 * x) \<le> 0"
    by (rule Suc.IH)
  then show ?case by simp
qed

lemma exp_down_ge: "- int n \<le> exp_down n x"
  by (induction n arbitrary: x) (auto simp: le_diff_eq)

lemma exp_up_ge0: "0 \<le> exp_up n x"
  by (induction n arbitrary: x) auto

lemma exp_up_le: "exp_up n x \<le> int n"
  by (induction n arbitrary: x) auto

lemma exp_up_bound: "x < 2 ^ Suc j \<Longrightarrow> exp_up n x \<le> int j"
proof (induction n arbitrary: x j)
  case 0
  show ?case by simp
next
  case (Suc n)
  show ?case
  proof (cases "x < 2")
    case True
    then show ?thesis by simp
  next
    case False
    with Suc.prems obtain i where j: "j = Suc i"
      by (cases j) auto
    with Suc.prems have "x / 2 < 2 ^ Suc i"
      by simp
    then have "exp_up n (x / 2) \<le> int i"
      by (rule Suc.IH)
    with False j show ?thesis by simp
  qed
qed

lemma exp_down_numeral:
  "exp_down (numeral k) x = (if 1 \<le> x then 0 else exp_down (pred_numeral k) (2 * x) - 1)"
  by (simp add: numeral_eq_Suc)

lemma exp_up_numeral:
  "exp_up (numeral k) x = (if x < 2 then 0 else 1 + exp_up (pred_numeral k) (x / 2))"
  by (simp add: numeral_eq_Suc)

lemma exponent_range: "- 1022 \<le> exponent x \<and> exponent x \<le> 1024"
  using exp_down_ge [of 1022 "\<bar>x\<bar>"] exp_down_le0 [of 1022 "\<bar>x\<bar>"]
    exp_up_ge0 [of 1024 "\<bar>x\<bar>"] exp_up_le [of 1024 "\<bar>x\<bar>"]
  by (simp add: exponent_def)

lemma exponent_lt_one: "\<bar>x\<bar> < 1 \<Longrightarrow> exponent x \<le> - 1"
  using exp_down_le0 [of 1021 "2 * \<bar>x\<bar>"]
  by (simp add: exponent_def exp_down_numeral)

lemma exponent_bound: "\<bar>x\<bar> < 2 ^ Suc j \<Longrightarrow> exponent x \<le> int j"
  using exp_up_bound [of "\<bar>x\<bar>" j 1024] exp_down_le0 [of 1022 "\<bar>x\<bar>"]
  by (simp add: exponent_def)

subsection \<open>ulp and nearest\<close>

lemma ulp_pos: "0 < ulp x"
  by (simp add: ulp_def)

lemma ulp_le: "exponent x \<le> e \<Longrightarrow> ulp x \<le> 2 powi (e - 52)"
  unfolding ulp_def by (rule power_int_increasing) simp_all

lemma nearest_error: "\<bar>nearest x - x\<bar> \<le> ulp x / 2"
proof -
  have "nearest x - x = (of_int (round_even (x / ulp x)) - x / ulp x) * ulp x"
    using ulp_pos [of x] by (simp add: nearest_def field_simps)
  then have "\<bar>nearest x - x\<bar> = \<bar>of_int (round_even (x / ulp x)) - x / ulp x\<bar> * ulp x"
    using ulp_pos [of x] by (simp add: abs_mult)
  also have "\<dots> \<le> (1 / 2) * ulp x"
    by (rule mult_right_mono [OF round_even_error]) (simp add: ulp_pos less_imp_le)
  finally show ?thesis by simp
qed

lemma nearest_le_grid:
  assumes "x < (of_int k + 1 / 2) * ulp x"
  shows "nearest x \<le> of_int k * ulp x"
proof -
  from assms have "x / ulp x < of_int k + 1 / 2"
    using ulp_pos [of x] by (simp add: pos_divide_less_eq)
  then have "round_even (x / ulp x) \<le> k"
    by (rule round_even_le)
  then have "(of_int (round_even (x / ulp x)) :: real) \<le> of_int k"
    by simp
  then show ?thesis
    unfolding nearest_def by (rule mult_right_mono) (simp add: ulp_pos less_imp_le)
qed

lemma nearest_ge_grid:
  assumes "(of_int k - 1 / 2) * ulp x < x"
  shows "of_int k * ulp x \<le> nearest x"
proof -
  from assms have "of_int k - 1 / 2 < x / ulp x"
    using ulp_pos [of x] by (simp add: pos_less_divide_eq)
  then have "k \<le> round_even (x / ulp x)"
    by (rule round_even_ge)
  then have "(of_int k :: real) \<le> of_int (round_even (x / ulp x))"
    by simp
  then show ?thesis
    unfolding nearest_def by (rule mult_right_mono) (simp add: ulp_pos less_imp_le)
qed

lemma nearest_nonneg: "0 \<le> x \<Longrightarrow> 0 \<le> nearest x"
  using nearest_ge_grid [of 0 x] ulp_pos [of x] by simp

lemma nearest_nonpos: "x \<le> 0 \<Longrightarrow> nearest x \<le> 0"
  using nearest_le_grid [of x 0] ulp_pos [of x] by simp

lemma grid_power:
  assumes "exponent x - 52 \<le> j"
  shows "2 powi j = of_int (2 ^ nat (j - (exponent x - 52))) * ulp x"
proof -
  have "(2::real) powi j = 2 powi ((j - (exponent x - 52)) + (exponent x - 52))"
    by simp
  also have "\<dots> = 2 powi (j - (exponent x - 52)) * 2 powi (exponent x - 52)"
    by (rule power_int_add) simp
  also have "(2::real) powi (j - (exponent x - 52)) = 2 ^ nat (j - (exponent x - 52))"
    using assms by (simp add: power_int_def)
  finally show ?thesis
    by (simp add: ulp_def)
qed

lemma nearest_le_pow:
  assumes "x \<le> 2 powi j" and "exponent x - 52 \<le> j"
  shows "nearest x \<le> 2 powi j"
proof -
  let ?K = "2 ^ nat (j - (exponent x - 52)) :: int"
  have eq: "2 powi j = of_int ?K * ulp x"
    by (rule grid_power [OF assms(2)])
  have "x < (of_int ?K + 1 / 2) * ulp x"
    using assms(1) ulp_pos [of x] unfolding eq by (simp add: algebra_simps)
  then have "nearest x \<le> of_int ?K * ulp x"
    by (rule nearest_le_grid)
  then show ?thesis
    by (simp only: eq)
qed

lemma nearest_ge_neg_pow:
  assumes "- (2 powi j) \<le> x" and "exponent x - 52 \<le> j"
  shows "- (2 powi j) \<le> nearest x"
proof -
  let ?K = "2 ^ nat (j - (exponent x - 52)) :: int"
  have eq: "2 powi j = of_int ?K * ulp x"
    by (rule grid_power [OF assms(2)])
  have "(of_int (- ?K) - 1 / 2) * ulp x < x"
    using assms(1) ulp_pos [of x] unfolding eq by (simp add: algebra_simps)
  then have "of_int (- ?K) * ulp x \<le> nearest x"
    by (rule nearest_ge_grid)
  then show ?thesis
    unfolding eq by simp
qed

lemma exponent_one: "\<bar>x\<bar> = 1 \<Longrightarrow> exponent x = 0"
  by (simp add: exponent_def exp_up_numeral)

lemma nearest_one: "\<bar>x\<bar> = 1 \<Longrightarrow> nearest x = x"
proof -
  assume x: "\<bar>x\<bar> = 1"
  then have u: "ulp x = 1 / 2 ^ 52"
    by (simp add: ulp_def exponent_one power_int_minus inverse_eq_divide)
  from x have "x = 1 \<or> x = - 1"
    by (auto simp: abs_if split: if_splits)
  then have "x / ulp x = of_int (if x = 1 then 2 ^ 52 else - (2 ^ 52))"
    by (auto simp: u)
  then have "round_even (x / ulp x) = (if x = 1 then 2 ^ 52 else - (2 ^ 52))"
    by (simp only: round_even_of_int)
  with \<open>x = 1 \<or> x = - 1\<close> show ?thesis
    by (auto simp: nearest_def u)
qed

lemma nearest_unit:
  assumes "\<bar>x\<bar> \<le> 1"
  shows "\<bar>nearest x\<bar> \<le> 1" and "\<bar>nearest x - x\<bar> \<le> 1 / 2 ^ 54"
proof -
  have "\<bar>x\<bar> < 2 ^ Suc 0"
    using assms by simp
  then have "exponent x \<le> int 0"
    by (rule exponent_bound)
  then have e: "exponent x - 52 \<le> 0"
    by simp
  have "nearest x \<le> 2 powi 0"
    by (rule nearest_le_pow [OF _ e]) (use assms in simp)
  moreover have "- (2 powi 0) \<le> nearest x"
    by (rule nearest_ge_neg_pow [OF _ e]) (use assms in simp)
  ultimately show "\<bar>nearest x\<bar> \<le> 1"
    by simp
  show "\<bar>nearest x - x\<bar> \<le> 1 / 2 ^ 54"
  proof (cases "\<bar>x\<bar> = 1")
    case True
    then show ?thesis by (simp add: nearest_one)
  next
    case False
    with assms have "\<bar>x\<bar> < 1" by simp
    then have "exponent x \<le> - 1"
      by (rule exponent_lt_one)
    then have "ulp x \<le> 2 powi (- 1 - 52)"
      by (rule ulp_le)
    then have "ulp x \<le> 1 / 2 ^ 53"
      by (simp add: power_int_minus inverse_eq_divide)
    with nearest_error [of x] show ?thesis
      by simp
  qed
qed

lemma rnd_finite: "\<bar>nearest x\<bar> < 2 ^ 1024 \<Longrightarrow> rnd x = Num (nearest x)"
  by (simp add: rnd_def)

lemma rnd_unit: "\<bar>x\<bar> \<le> 1 \<Longrightarrow> rnd x = Num (nearest x)"
proof (rule rnd_finite)
  assume "\<bar>x\<bar> \<le> 1"
  then have "\<bar>nearest x\<bar> \<le> 1"
    by (rule nearest_unit)
  moreover have "(1::real) < 2 ^ 1024"
    by simp
  ultimately show "\<bar>nearest x\<bar> < 2 ^ 1024"
    by (rule le_less_trans)
qed

lemma nearest_eval:
  "exponent x = e \<Longrightarrow> round_even (x / 2 powi (e - 52)) = k \<Longrightarrow>
     nearest x = of_int k * 2 powi (e - 52)"
  by (simp add: nearest_def ulp_def)

lemma nearest_03: "nearest (3 / 10) = 5404319552844595 / 2 ^ 54"
proof -
  have e: "exponent (3 / 10) = - 2"
    by (simp add: exponent_def exp_down_numeral)
  have "round_even (3 / 10 / 2 powi (- 2 - 52)) = 5404319552844595"
    by (simp add: round_even_def Let_def power_int_minus)
  from nearest_eval [OF e this] show ?thesis
    by (simp add: power_int_minus inverse_eq_divide)
qed

section \<open>Trend\<close>

lemma js_sub_NaN_right: "js_sub x NaN = NaN"
  by (cases x) simp_all

text \<open>
  C1. The claim asks for a trend of 0 whenever a half of the split is empty. A buffer
  of exactly one event has an empty first half, and there the code divides 0 by 0:
  its trend is \<open>NaN\<close>, not 0.
\<close>

theorem single_event_trend_nan:
  "improvement (stats (push_all [event_of Good])) = NaN \<and>
   improvement (stats (push_all [event_of Good])) \<noteq> Num 0"
  by (simp add: push_all_def initial_buffer_def handlePostureUpdate_def slice_last_def
      stats_def Let_def js_of_nat_def count_status_def event_of_def js_sub_NaN_right)

lemma nearest_zero: "nearest 0 = 0"
  by (simp add: nearest_def round_even_def)

lemma nearest_100: "nearest 100 = 100"
proof -
  have e: "exponent 100 = 6"
    by (simp add: exponent_def exp_up_numeral)
  have "round_even (100 / 2 powi (6 - 52)) = 100 * 2 ^ 46"
    by (simp add: round_even_def Let_def power_int_minus)
  from nearest_eval [OF e this] show ?thesis
    by (simp add: power_int_minus)
qed

lemma nearest_times_100:
  assumes "\<bar>d\<bar> \<le> 1"
  shows "\<bar>nearest (d * 100) - d * 100\<bar> \<le> 1 / 2 ^ 47" and "\<bar>nearest (d * 100)\<bar> < 2 ^ 1024"
proof -
  have b: "\<bar>d * 100\<bar> \<le> 100"
    using assms by (simp add: abs_mult)
  then have "\<bar>d * 100\<bar> < 2 ^ Suc 6"
    by simp
  then have "exponent (d * 100) \<le> int 6"
    by (rule exponent_bound)
  then have "ulp (d * 100) \<le> 2 powi (6 - 52)"
    by (intro ulp_le) simp
  then have "ulp (d * 100) \<le> 1 / 2 ^ 46"
    by (simp add: power_int_minus inverse_eq_divide)
  with nearest_error [of "d * 100"] show err: "\<bar>nearest (d * 100) - d * 100\<bar> \<le> 1 / 2 ^ 47"
    by simp
  have "\<bar>nearest (d * 100)\<bar> \<le> \<bar>nearest (d * 100) - d * 100\<bar> + \<bar>d * 100\<bar>"
    by simp
  also have "\<dots> \<le> 1 / 2 ^ 47 + 100"
    using err b by simp
  also have "\<dots> < 2 ^ 1024"
    by simp
  finally show "\<bar>nearest (d * 100)\<bar> < 2 ^ 1024" .
qed

lemma good_rate_unit: "ds \<noteq> [] \<Longrightarrow> 0 \<le> good_rate ds \<and> good_rate ds \<le> 1"
proof -
  assume "ds \<noteq> []"
  have "length (filter (\<lambda>d. status d = Good) ds) \<le> length ds"
    by (rule length_filter_le)
  then have "real (length (filter (\<lambda>d. status d = Good) ds)) \<le> real (length ds)"
    by simp
  with \<open>ds \<noteq> []\<close> show ?thesis
    by (simp add: good_rate_def)
qed

lemma rate_js:
  assumes "ds \<noteq> []"
  shows "js_div (js_of_nat (count_status Good ds)) (js_of_nat (length ds))
           = Num (nearest (good_rate ds))"
proof -
  have "\<bar>good_rate ds\<bar> \<le> 1"
    using good_rate_unit [OF assms] by simp
  then have "rnd (good_rate ds) = Num (nearest (good_rate ds))"
    by (rule rnd_unit)
  with assms show ?thesis
    by (simp add: js_of_nat_def good_rate_def count_status_def)
qed

lemma improvement_stats:
  "buf \<noteq> [] \<Longrightarrow>
     improvement (stats buf) =
       js_mul (js_sub
           (js_div (js_of_nat (count_status Good (drop (length buf div 2) buf)))
              (js_of_nat (length (drop (length buf div 2) buf))))
           (js_div (js_of_nat (count_status Good (take (length buf div 2) buf)))
              (js_of_nat (length (take (length buf div 2) buf)))))
         (Num 100)"
  by (simp add: stats_def Let_def)

lemma trend_telescope:
  fixes p d' r2' r1' r2 r1 :: real
  shows "p - (r2 - r1) * 100
           = (p - d' * 100) + 100 * (d' - (r2' - r1')) + 100 * (r2' - r2) - 100 * (r1' - r1)"
  by (simp add: algebra_simps)

lemma abs_sum4:
  fixes a b c e :: real
  assumes "\<bar>a\<bar> \<le> A" "\<bar>b\<bar> \<le> B" "\<bar>c\<bar> \<le> B" "\<bar>e\<bar> \<le> B"
  shows "\<bar>a + 100 * b + 100 * c - 100 * e\<bar> \<le> A + 100 * B + 100 * B + 100 * B"
  using assms by (simp add: abs_le_iff)

lemma improvement_double:
  assumes "2 \<le> length buf"
  shows "improvement (stats buf) = Num (trend_double buf)"
    and "\<bar>trend_double buf - trend_spec buf\<bar> \<le> 1 / 2 ^ 45"
proof -
  let ?h = "length buf div 2"
  let ?r1 = "good_rate (take ?h buf)" and ?r2 = "good_rate (drop ?h buf)"
  let ?d = "nearest ?r2 - nearest ?r1"
  from assms have ne: "buf \<noteq> []" "take ?h buf \<noteq> []" "drop ?h buf \<noteq> []"
    by auto
  have u1: "0 \<le> ?r1" "?r1 \<le> 1" and u2: "0 \<le> ?r2" "?r2 \<le> 1"
    using good_rate_unit [OF ne(2)] good_rate_unit [OF ne(3)] by simp_all
  have a1: "\<bar>?r1\<bar> \<le> 1" and a2: "\<bar>?r2\<bar> \<le> 1"
    using u1 u2 by simp_all
  have n1: "0 \<le> nearest ?r1" "nearest ?r1 \<le> 1" "\<bar>nearest ?r1 - ?r1\<bar> \<le> 1 / 2 ^ 54"
    using nearest_nonneg [OF u1(1)] nearest_unit [OF a1] by simp_all
  have n2: "0 \<le> nearest ?r2" "nearest ?r2 \<le> 1" "\<bar>nearest ?r2 - ?r2\<bar> \<le> 1 / 2 ^ 54"
    using nearest_nonneg [OF u2(1)] nearest_unit [OF a2] by simp_all
  have ad: "\<bar>?d\<bar> \<le> 1"
    using n1(1,2) n2(1,2) by (simp add: abs_le_iff)
  have nd: "\<bar>nearest ?d\<bar> \<le> 1" "\<bar>nearest ?d - ?d\<bar> \<le> 1 / 2 ^ 54"
    using nearest_unit [OF ad] by simp_all
  have np: "\<bar>nearest (nearest ?d * 100) - nearest ?d * 100\<bar> \<le> 1 / 2 ^ 47"
    "\<bar>nearest (nearest ?d * 100)\<bar> < 2 ^ 1024"
    using nearest_times_100 [OF nd(1)] by simp_all
  have sub: "js_sub (Num (nearest ?r2)) (Num (nearest ?r1)) = Num (nearest ?d)"
    using rnd_unit [OF ad] by simp
  have mul: "js_mul (Num (nearest ?d)) (Num 100) = Num (nearest (nearest ?d * 100))"
    using rnd_finite [OF np(2)] by simp
  show "improvement (stats buf) = Num (trend_double buf)"
    unfolding improvement_stats [OF ne(1)] rate_js [OF ne(2)] rate_js [OF ne(3)] sub mul
      trend_double_def ..
  define e3 where "e3 = nearest (nearest ?d * 100) - nearest ?d * 100"
  define e2 where "e2 = nearest ?d - ?d"
  define e1 where "e1 = nearest ?r2 - ?r2"
  define e0 where "e0 = nearest ?r1 - ?r1"
  have b3: "\<bar>e3\<bar> \<le> 1 / 2 ^ 47" and b2: "\<bar>e2\<bar> \<le> 1 / 2 ^ 54"
    and b1: "\<bar>e1\<bar> \<le> 1 / 2 ^ 54" and b0: "\<bar>e0\<bar> \<le> 1 / 2 ^ 54"
    using np(1) nd(2) n2(3) n1(3) by (simp_all only: e3_def e2_def e1_def e0_def)
  have "trend_double buf - trend_spec buf = e3 + 100 * e2 + 100 * e1 - 100 * e0"
    unfolding trend_double_def trend_spec_def e3_def e2_def e1_def e0_def
    by (rule trend_telescope)
  moreover have "\<bar>e3 + 100 * e2 + 100 * e1 - 100 * e0\<bar>
      \<le> 1 / 2 ^ 47 + 100 * (1 / 2 ^ 54) + 100 * (1 / 2 ^ 54) + 100 * (1 / 2 ^ 54)"
    by (rule abs_sum4 [OF b3 b2 b1 b0])
  moreover have "(1 / 2 ^ 47 + 100 * (1 / 2 ^ 54) + 100 * (1 / 2 ^ 54) + 100 * (1 / 2 ^ 54) :: real)
      \<le> 1 / 2 ^ 45"
    by simp
  ultimately show "\<bar>trend_double buf - trend_spec buf\<bar> \<le> 1 / 2 ^ 45"
    by (simp only:)
qed

lemma nearest_rate_6: "nearest (3 / 5) = 5404319552844595 / 2 ^ 53"
proof -
  have e: "exponent (3 / 5) = - 1"
    by (simp add: exponent_def exp_down_numeral)
  have "round_even (3 / 5 / 2 powi (- 1 - 52)) = 5404319552844595"
    by (simp add: round_even_def Let_def power_int_minus)
  from nearest_eval [OF e this] show ?thesis
    by (simp add: power_int_minus inverse_eq_divide)
qed

lemma nearest_07: "nearest (7 / 10) = 6305039478318694 / 2 ^ 53"
proof -
  have e: "exponent (7 / 10) = - 1"
    by (simp add: exponent_def exp_down_numeral)
  have "round_even (7 / 10 / 2 powi (- 1 - 52)) = 6305039478318694"
    by (simp add: round_even_def Let_def power_int_minus)
  from nearest_eval [OF e this] show ?thesis
    by (simp add: power_int_minus inverse_eq_divide)
qed

lemma nearest_rate_diff: "nearest (900719925474099 / 2 ^ 53) = 900719925474099 / 2 ^ 53"
proof -
  have e: "exponent (900719925474099 / 2 ^ 53) = - 4"
    by (simp add: exponent_def exp_down_numeral)
  have "round_even (900719925474099 / 2 ^ 53 / 2 powi (- 4 - 52)) = 900719925474099 * 8"
    by (simp add: round_even_def Let_def power_int_minus)
  from nearest_eval [OF e this] show ?thesis
    by (simp add: power_int_minus inverse_eq_divide)
qed

lemma nearest_rate_times_100:
  "nearest (900719925474099 / 2 ^ 53 * 100) = 5629499534213119 / 2 ^ 49"
proof -
  have e: "exponent (900719925474099 / 2 ^ 53 * 100) = 3"
    by (simp add: exponent_def exp_up_numeral)
  have "round_even (900719925474099 / 2 ^ 53 * 100 / 2 powi (3 - 52)) = 5629499534213119"
    by (simp add: round_even_def Let_def power_int_minus)
  from nearest_eval [OF e this] show ?thesis
    by (simp add: power_int_minus inverse_eq_divide)
qed

lemma sample_window_rates:
  "length sample_window = 20"
  "good_rate (take 10 sample_window) = 3 / 5"
  "good_rate (drop 10 sample_window) = 7 / 10"
  by (simp_all add: sample_window_def good_rate_def event_of_def)

lemma trend_double_sample: "trend_double sample_window = 5629499534213119 / 2 ^ 49"
proof -
  have h: "length sample_window div 2 = 10"
    by (simp add: sample_window_rates)
  have d: "nearest (7 / 10) - nearest (3 / 5) = (900719925474099 / 2 ^ 53 :: real)"
    by (simp add: nearest_07 nearest_rate_6)
  show ?thesis
    unfolding trend_double_def h sample_window_rates(2,3) d nearest_rate_diff
      nearest_rate_times_100 ..
qed

lemma trend_spec_sample: "trend_spec sample_window = 10"
  by (simp add: trend_spec_def sample_window_rates)

lemma push_all_sample_window: "push_all sample_window = sample_window"
  by (rule push_all_short) (simp add: sample_window_rates)

text \<open>
  C4, as stated with the exact formula, fails: on the window of 6 good, 4 bad, 7 good
  and 3 bad events the rates are 0.6 and 0.7 and the exact trend is 10, but the code
  works in doubles and returns \<open>9.999999999999998\<close>, which is \<open>10 - 2 ^ -49\<close>.
\<close>

theorem trend_not_exact:
  "improvement (stats (push_all sample_window)) = Num (5629499534213119 / 2 ^ 49) \<and>
   trend_spec (push_all sample_window) = 10 \<and>
   improvement (stats (push_all sample_window)) \<noteq> Num (trend_spec (push_all sample_window))"
proof -
  have "2 \<le> length sample_window"
    by (simp add: sample_window_rates)
  then have "improvement (stats sample_window) = Num (trend_double sample_window)"
    by (rule improvement_double)
  then show ?thesis
    by (simp add: push_all_sample_window trend_double_sample trend_spec_sample)
qed

text \<open>
  C4, amended. For every buffer of at least two events (both halves non-empty) the
  trend is a finite number: the value of
  \<open>(secondHalfGoodRate - firstHalfGoodRate) * 100\<close> computed in doubles (the two
  rates, the difference and the product each rounded to the nearest double), with the
  split at \<open>floor(total/2)\<close>. It is within \<open>2 ^ -45\<close> of the exact value. Pushing
  \<open>[bad, bad, good, good, good]\<close>, where the first half is the first two events,
  gives the trend 100 exactly.
\<close>

theorem trend_split_double:
  "(2 \<le> length buf \<longrightarrow>
      improvement (stats buf) = Num (trend_double buf) \<and>
      \<bar>trend_double buf - trend_spec buf\<bar> \<le> 1 / 2 ^ 45 \<and>
      (odd (length buf) \<longrightarrow>
         length (take (length buf div 2) buf) + 1 = length (drop (length buf div 2) buf))) \<and>
   improvement (stats (push_all (map event_of [Bad, Bad, Good, Good, Good]))) = Num 100"
proof (intro conjI impI)
  assume len: "2 \<le> length buf"
  show "improvement (stats buf) = Num (trend_double buf)"
    using len by (rule improvement_double)
  show "\<bar>trend_double buf - trend_spec buf\<bar> \<le> 1 / 2 ^ 45"
    using len by (rule improvement_double)
next
  assume "odd (length buf)"
  then show "length (take (length buf div 2) buf) + 1 = length (drop (length buf div 2) buf)"
    by (auto elim!: oddE)
next
  let ?b = "map event_of [Bad, Bad, Good, Good, Good]"
  have same: "push_all ?b = ?b"
    by (rule push_all_short) simp
  have "2 \<le> length ?b"
    by simp
  then have "improvement (stats ?b) = Num (trend_double ?b)"
    by (rule improvement_double)
  moreover have "trend_double ?b = 100"
    by (simp add: trend_double_def good_rate_def event_of_def nearest_zero nearest_one
        nearest_100)
  ultimately show "improvement (stats (push_all ?b)) = Num 100"
    by (simp only: same)
qed

theorem trend_split_double_witness:
  "2 \<le> length sample_window \<and>
   improvement (stats sample_window) = Num (5629499534213119 / 2 ^ 49) \<and>
   \<bar>5629499534213119 / 2 ^ 49 - trend_spec sample_window\<bar> \<le> (1 / 2 ^ 45 :: real) \<and>
   2 \<le> length (map event_of [Good, Bad, Good]) \<and>
   odd (length (map event_of [Good, Bad, Good])) \<and>
   length (take 1 (map event_of [Good, Bad, Good])) + 1
     = length (drop 1 (map event_of [Good, Bad, Good]))"
proof -
  have len: "2 \<le> length sample_window"
    by (simp add: sample_window_rates)
  from trend_split_double [of sample_window] len
  have "improvement (stats sample_window) = Num (trend_double sample_window) \<and>
        \<bar>trend_double sample_window - trend_spec sample_window\<bar> \<le> 1 / 2 ^ 45"
    by blast
  with len have even_case: "2 \<le> length sample_window \<and>
      improvement (stats sample_window) = Num (5629499534213119 / 2 ^ 49) \<and>
      \<bar>5629499534213119 / 2 ^ 49 - trend_spec sample_window\<bar> \<le> (1 / 2 ^ 45 :: real)"
    by (simp only: trend_double_sample)
  have len3: "2 \<le> length (map event_of [Good, Bad, Good])"
    and odd3: "odd (length (map event_of [Good, Bad, Good]))"
    and half3: "length (map event_of [Good, Bad, Good]) div 2 = 1"
    by simp_all
  from trend_split_double [of "map event_of [Good, Bad, Good]"] len3 odd3
  have "length (take (length (map event_of [Good, Bad, Good]) div 2)
                  (map event_of [Good, Bad, Good])) + 1
          = length (drop (length (map event_of [Good, Bad, Good]) div 2)
                  (map event_of [Good, Bad, Good]))"
    by blast
  then have "length (take 1 (map event_of [Good, Bad, Good])) + 1
               = length (drop 1 (map event_of [Good, Bad, Good]))"
    by (simp only: half3)
  with even_case len3 odd3 show ?thesis
    by blast
qed

section \<open>Streaks\<close>

lemma currentStreak_loop_takeWhile:
  "n \<le> length buf \<Longrightarrow>
     currentStreak_loop buf n cur = cur + length (takeWhile is_good (rev (take n buf)))"
proof (induction n arbitrary: cur)
  case 0
  show ?case by simp
next
  case (Suc i)
  then have "i < length buf" by simp
  then have "take (Suc i) buf = take i buf @ [buf ! i]"
    by (rule take_Suc_conv_app_nth)
  with Suc show ?case
    by (simp add: is_good_def)
qed

lemma currentStreak_stats:
  "currentStreak (stats buf) = length (takeWhile is_good (rev buf))"
  by (cases "buf = []") (simp_all add: stats_def Let_def currentStreak_loop_takeWhile)

lemma longestStreak_stats:
  "longestStreak (stats buf) = longestStreak_loop buf 0 0"
  by (cases buf) (simp_all add: stats_def Let_def)

lemma longestStreak_loop_ge: "longest \<le> longestStreak_loop ds longest temp"
proof (induction ds arbitrary: longest temp)
  case Nil
  show ?case by simp
next
  case (Cons d ds)
  show ?case
  proof (cases "status d = Good")
    case True
    have "max longest (temp + 1) \<le> longestStreak_loop ds (max longest (temp + 1)) (temp + 1)"
      by (rule Cons.IH)
    with True show ?thesis by simp
  next
    case False
    with Cons.IH [of longest 0] show ?thesis by simp
  qed
qed

lemma longestStreak_loop_prefix:
  "temp \<le> longest \<Longrightarrow> n \<le> length ds \<Longrightarrow> list_all is_good (take n ds) \<Longrightarrow>
     temp + n \<le> longestStreak_loop ds longest temp"
proof (induction ds arbitrary: longest temp n)
  case Nil
  then show ?case by simp
next
  case (Cons d ds)
  show ?case
  proof (cases n)
    case 0
    have "longest \<le> longestStreak_loop (d # ds) longest temp"
      by (rule longestStreak_loop_ge)
    with 0 Cons.prems(1) show ?thesis by simp
  next
    case (Suc m)
    with Cons.prems have "is_good d" and m: "m \<le> length ds"
      and rest: "list_all is_good (take m ds)"
      by simp_all
    then have good: "status d = Good"
      by (simp add: is_good_def)
    have "temp + 1 + m \<le> longestStreak_loop ds (max longest (temp + 1)) (temp + 1)"
      by (rule Cons.IH [OF _ m rest]) simp
    with good Suc show ?thesis by simp
  qed
qed

lemma longestStreak_loop_upper:
  "temp \<le> longest \<Longrightarrow> good_run ds i n \<Longrightarrow> n \<le> longestStreak_loop ds longest temp"
proof (induction ds arbitrary: longest temp i)
  case Nil
  then show ?case by (simp add: good_run_def)
next
  case (Cons d ds)
  show ?case
  proof (cases i)
    case 0
    with Cons.prems(2) have "n \<le> length (d # ds)" "list_all is_good (take n (d # ds))"
      by (simp_all add: good_run_def)
    with Cons.prems(1) have "temp + n \<le> longestStreak_loop (d # ds) longest temp"
      by (rule longestStreak_loop_prefix)
    then show ?thesis by simp
  next
    case (Suc j)
    with Cons.prems(2) have run: "good_run ds j n"
      by (simp add: good_run_def)
    show ?thesis
    proof (cases "status d = Good")
      case True
      have "n \<le> longestStreak_loop ds (max longest (temp + 1)) (temp + 1)"
        by (rule Cons.IH [OF _ run]) simp
      with True show ?thesis by simp
    next
      case False
      have "n \<le> longestStreak_loop ds longest 0"
        by (rule Cons.IH [OF _ run]) simp
      with False show ?thesis by simp
    qed
  qed
qed

text \<open>The result is the bound it started with, or the running streak extended by a
  good prefix, or the length of a good run further on.\<close>

lemma longestStreak_loop_attained:
  "longestStreak_loop ds longest temp = longest \<or>
   (\<exists>n. n \<le> length ds \<and> list_all is_good (take n ds) \<and>
        longestStreak_loop ds longest temp = temp + n) \<or>
   (\<exists>i. good_run ds i (longestStreak_loop ds longest temp))"
proof (induction ds arbitrary: longest temp)
  case Nil
  show ?case by simp
next
  case (Cons d ds)
  show ?case
  proof (cases "status d = Good")
    case True
    let ?r = "longestStreak_loop ds (max longest (temp + 1)) (temp + 1)"
    have res: "longestStreak_loop (d # ds) longest temp = ?r"
      using True by simp
    from Cons.IH [of "max longest (temp + 1)" "temp + 1"]
    consider (a) "?r = max longest (temp + 1)"
      | (b) n where "n \<le> length ds" "list_all is_good (take n ds)" "?r = temp + 1 + n"
      | (c) i where "good_run ds i ?r"
      by blast
    then show ?thesis
    proof cases
      case a
      show ?thesis
      proof (cases "temp + 1 \<le> longest")
        case True
        with a res show ?thesis by (simp add: max_def)
      next
        case False
        with a res have "longestStreak_loop (d # ds) longest temp = temp + Suc 0"
          by (simp add: max_def)
        moreover have "Suc 0 \<le> length (d # ds)" "list_all is_good (take (Suc 0) (d # ds))"
          using True by (simp_all add: is_good_def)
        ultimately show ?thesis by blast
      qed
    next
      case b
      have "Suc n \<le> length (d # ds)" "list_all is_good (take (Suc n) (d # ds))"
        using b True by (simp_all add: is_good_def)
      moreover have "longestStreak_loop (d # ds) longest temp = temp + Suc n"
        using b res by simp
      ultimately show ?thesis by blast
    next
      case c
      then have "good_run (d # ds) (Suc i) ?r"
        by (simp add: good_run_def)
      then show ?thesis unfolding res by (intro disjI2 exI)
    qed
  next
    case False
    let ?r = "longestStreak_loop ds longest 0"
    have res: "longestStreak_loop (d # ds) longest temp = ?r"
      using False by simp
    from Cons.IH [of longest 0]
    consider (a) "?r = longest"
      | (b) n where "n \<le> length ds" "list_all is_good (take n ds)" "?r = n"
      | (c) i where "good_run ds i ?r"
      by auto
    then show ?thesis
    proof cases
      case a
      with res show ?thesis by simp
    next
      case b
      then have "good_run (d # ds) (Suc 0) ?r"
        by (simp add: good_run_def)
      then show ?thesis unfolding res by (intro disjI2 exI)
    next
      case c
      then have "good_run (d # ds) (Suc i) ?r"
        by (simp add: good_run_def)
      then show ?thesis unfolding res by (intro disjI2 exI)
    qed
  qed
qed

lemma longestStreak_is_run: "\<exists>i. good_run buf i (longestStreak (stats buf))"
proof -
  let ?r = "longestStreak_loop buf 0 0"
  from longestStreak_loop_attained [of buf 0 0]
  consider (a) "?r = 0"
    | (b) n where "n \<le> length buf" "list_all is_good (take n buf)" "?r = n"
    | (c) i where "good_run buf i ?r"
    by auto
  then have "\<exists>i. good_run buf i ?r"
  proof cases
    case a
    then have "good_run buf 0 ?r" by (simp add: good_run_def)
    then show ?thesis ..
  next
    case b
    then have "good_run buf 0 ?r" by (simp add: good_run_def)
    then show ?thesis ..
  next
    case c
    then show ?thesis ..
  qed
  then show ?thesis by (simp add: longestStreak_stats)
qed

lemma longestStreak_bounds_runs: "good_run buf i n \<Longrightarrow> n \<le> longestStreak (stats buf)"
  unfolding longestStreak_stats by (rule longestStreak_loop_upper) simp_all

lemma good_suffix_is_run:
  "good_run buf (length buf - length (takeWhile is_good (rev buf)))
     (length (takeWhile is_good (rev buf)))"
proof -
  let ?c = "length (takeWhile is_good (rev buf))"
  have le: "?c \<le> length buf"
    using length_takeWhile_le [of is_good "rev buf"] by simp
  define pre where "pre = rev (dropWhile is_good (rev buf))"
  define suf where "suf = rev (takeWhile is_good (rev buf))"
  have "rev (pre @ suf) = rev buf"
    by (simp add: pre_def suf_def)
  then have buf: "buf = pre @ suf"
    by (simp only: rev_is_rev_conv)
  have "length suf = ?c"
    by (simp add: suf_def)
  then have "length buf - ?c = length pre"
    by (simp add: buf)
  then have "drop (length buf - ?c) buf = suf"
    by (simp add: buf)
  then have "drop (length buf - ?c) buf = rev (takeWhile is_good (rev buf))"
    by (simp only: suf_def)
  moreover have "list_all is_good (rev (takeWhile is_good (rev buf)))"
    by (auto simp: list_all_iff dest: set_takeWhileD)
  ultimately show ?thesis
    using le by (simp add: good_run_def)
qed

lemma streak_order:
  "currentStreak (stats buf) \<le> longestStreak (stats buf) \<and>
   longestStreak (stats buf) \<le> length buf"
proof
  show "currentStreak (stats buf) \<le> longestStreak (stats buf)"
    unfolding currentStreak_stats
    by (rule longestStreak_bounds_runs) (rule good_suffix_is_run)
  obtain i where "good_run buf i (longestStreak (stats buf))"
    using longestStreak_is_run by blast
  then show "longestStreak (stats buf) \<le> length buf"
    by (simp add: good_run_def)
qed

lemma stats_sample6:
  "currentStreak (stats (map event_of [Good, Good, Warning, Good, Good, Good])) = 3 \<and>
   longestStreak (stats (map event_of [Good, Good, Warning, Good, Good, Good])) = 3"
  by (simp add: stats_def Let_def event_of_def)

text \<open>
  C5. The current streak is the length of the longest suffix of the buffer made of
  good events only: the last \<open>currentStreak\<close> events are all good, and the event just
  before them, if there is one, is not good. It is 0 when the buffer is empty or its
  most recent event is not good.
\<close>

theorem current_streak_suffix:
  "good_run buf (length buf - currentStreak (stats buf)) (currentStreak (stats buf)) \<and>
   (currentStreak (stats buf) < length buf \<longrightarrow>
      status (buf ! (length buf - currentStreak (stats buf) - 1)) \<noteq> Good) \<and>
   (buf = [] \<or> status (last buf) \<noteq> Good \<longrightarrow> currentStreak (stats buf) = 0)"
proof (intro conjI impI)
  let ?c = "length (takeWhile is_good (rev buf))"
  show "good_run buf (length buf - currentStreak (stats buf)) (currentStreak (stats buf))"
    unfolding currentStreak_stats by (rule good_suffix_is_run)
  {
    assume "currentStreak (stats buf) < length buf"
    then have lt: "?c < length (rev buf)"
      by (simp add: currentStreak_stats)
    then have "\<not> is_good (rev buf ! ?c)"
      by (rule nth_length_takeWhile)
    moreover have "rev buf ! ?c = buf ! (length buf - Suc ?c)"
      using lt by (simp add: rev_nth)
    ultimately show "status (buf ! (length buf - currentStreak (stats buf) - 1)) \<noteq> Good"
      by (simp add: currentStreak_stats is_good_def)
  }
  {
    assume "buf = [] \<or> status (last buf) \<noteq> Good"
    then have "takeWhile is_good (rev buf) = []"
      by (cases buf rule: rev_cases) (auto simp: is_good_def)
    then show "currentStreak (stats buf) = 0"
      by (simp add: currentStreak_stats)
  }
qed

theorem current_streak_suffix_witness:
  "currentStreak (stats (map event_of [Good, Good, Warning, Good, Good, Good])) = 3 \<and>
   good_run (map event_of [Good, Good, Warning, Good, Good, Good]) 3 3 \<and>
   3 < length (map event_of [Good, Good, Warning, Good, Good, Good]) \<and>
   status (map event_of [Good, Good, Warning, Good, Good, Good] ! 2) \<noteq> Good \<and>
   status (last (map event_of [Good, Bad])) \<noteq> Good \<and>
   currentStreak (stats (map event_of [Good, Bad])) = 0"
proof -
  have c: "currentStreak (stats (map event_of [Good, Good, Warning, Good, Good, Good])) = 3"
    by (rule stats_sample6 [THEN conjunct1])
  have h: "status (last (map event_of [Good, Bad])) \<noteq> Good"
    by (simp add: event_of_def)
  show ?thesis
    using current_streak_suffix [of "map event_of [Good, Good, Warning, Good, Good, Good]"]
      current_streak_suffix [of "map event_of [Good, Bad]"] h
    unfolding c by (simp add: numeral_3_eq_3)
qed

text \<open>
  C6. The longest streak is the greatest length of a run of consecutive good events
  anywhere in the buffer: it is the length of some run, and no run is longer. It is 0
  for a buffer without a good event. Pushing
  \<open>[good, good, warning, good, good, good]\<close> gives a current streak of 3 and a longest
  streak of 3.
\<close>

theorem longest_streak_max_run:
  "(\<exists>i. good_run buf i (longestStreak (stats buf))) \<and>
   (\<forall>i n. good_run buf i n \<longrightarrow> n \<le> longestStreak (stats buf)) \<and>
   ((\<forall>d \<in> set buf. status d \<noteq> Good) \<longrightarrow> longestStreak (stats buf) = 0) \<and>
   currentStreak (stats (push_all (map event_of [Good, Good, Warning, Good, Good, Good]))) = 3 \<and>
   longestStreak (stats (push_all (map event_of [Good, Good, Warning, Good, Good, Good]))) = 3"
proof (intro conjI allI impI)
  show "\<exists>i. good_run buf i (longestStreak (stats buf))"
    by (rule longestStreak_is_run)
  show "n \<le> longestStreak (stats buf)" if "good_run buf i n" for i n
    using that by (rule longestStreak_bounds_runs)
  show "longestStreak (stats buf) = 0" if none: "\<forall>d \<in> set buf. status d \<noteq> Good"
  proof (rule ccontr)
    assume pos: "longestStreak (stats buf) \<noteq> 0"
    obtain i where run: "good_run buf i (longestStreak (stats buf))"
      using longestStreak_is_run by blast
    then have i: "i < length buf"
      using pos by (simp add: good_run_def)
    from run have all_good: "list_all is_good (take (longestStreak (stats buf)) (drop i buf))"
      by (simp add: good_run_def)
    have split: "drop i buf = buf ! i # drop (Suc i) buf"
      using i by (simp add: Cons_nth_drop_Suc)
    obtain m where m: "longestStreak (stats buf) = Suc m"
      using pos by (cases "longestStreak (stats buf)") auto
    from all_good have "is_good (buf ! i)"
      unfolding m split by simp
    moreover have "buf ! i \<in> set buf"
      using i by simp
    ultimately show False
      using none by (simp add: is_good_def)
  qed
  have same: "push_all (map event_of [Good, Good, Warning, Good, Good, Good])
                = map event_of [Good, Good, Warning, Good, Good, Good]"
    by (rule push_all_short) simp
  show "currentStreak (stats (push_all (map event_of [Good, Good, Warning, Good, Good, Good]))) = 3"
    unfolding same by (rule stats_sample6 [THEN conjunct1])
  show "longestStreak (stats (push_all (map event_of [Good, Good, Warning, Good, Good, Good]))) = 3"
    unfolding same by (rule stats_sample6 [THEN conjunct2])
qed

theorem longest_streak_max_run_witness:
  "good_run (map event_of [Good, Good, Warning, Good, Good, Good]) 3 3 \<and>
   3 \<le> longestStreak (stats (map event_of [Good, Good, Warning, Good, Good, Good])) \<and>
   status (event_of Bad) \<noteq> Good \<and> status (event_of Warning) \<noteq> Good \<and>
   longestStreak (stats (map event_of [Bad, Warning])) = 0"
proof -
  have run: "good_run (map event_of [Good, Good, Warning, Good, Good, Good]) 3 3"
    by (simp add: good_run_def is_good_def event_of_def)
  have none: "\<forall>d \<in> set (map event_of [Bad, Warning]). status d \<noteq> Good"
    by (simp add: event_of_def)
  note a = longest_streak_max_run [of "map event_of [Good, Good, Warning, Good, Good, Good]"]
  note b = longest_streak_max_run [of "map event_of [Bad, Warning]"]
  have "3 \<le> longestStreak (stats (map event_of [Good, Good, Warning, Good, Good, Good]))"
    using a run by blast
  moreover have "longestStreak (stats (map event_of [Bad, Warning])) = 0"
    using b none by blast
  moreover have "status (event_of Bad) \<noteq> Good" "status (event_of Warning) \<noteq> Good"
    by (simp_all add: event_of_def)
  ultimately show ?thesis
    using run by blast
qed

text \<open>
  C7. For every reachable buffer, \<open>0 \<le> currentStreak \<le> longestStreak \<le> total\<close>.
\<close>

theorem streak_bound:
  "0 \<le> currentStreak (stats (push_all events)) \<and>
   currentStreak (stats (push_all events)) \<le> longestStreak (stats (push_all events)) \<and>
   longestStreak (stats (push_all events)) \<le> totalReadings (stats (push_all events))"
  using streak_order [of "push_all events"] stats_counts [of "push_all events"] by simp

section \<open>The empty buffer\<close>

text \<open>
  C8. Before any push the buffer is empty, and its snapshot is a value, not an error:
  total 0, every count the snapshot carries 0, average confidence 0, both streaks 0
  and trend 0.
\<close>

theorem empty_defaults:
  "stats initial_buffer =
     \<lparr> totalReadings = 0, goodPosture = 0, warningPosture = 0, badPosture = 0,
       averageConfidence = Num 0, currentStreak = 0, longestStreak = 0,
       improvement = Num 0 \<rparr>"
  by (simp add: stats_def initial_buffer_def)

section \<open>The mock classifier\<close>

text \<open>
  C9. Whatever the activity and the random draw, the status that analyzePosture
  returns is good, warning or bad, and never neutral.
\<close>

theorem analyzePosture_status:
  "status (analyzePosture activity random random2 now) \<in> {Good, Warning, Bad} \<and>
   status (analyzePosture activity random random2 now) \<noteq> Neutral"
  by (simp add: analyzePosture_def analyze_status_def)

lemma exponent_lt_half: "\<bar>x\<bar> < 1 / 2 \<Longrightarrow> exponent x \<le> - 2"
  using exp_down_le0 [of 1020 "2 * (2 * \<bar>x\<bar>)"]
  by (simp add: exponent_def exp_down_numeral)

lemma exponent_lt_quarter: "\<bar>x\<bar> < 1 / 4 \<Longrightarrow> exponent x \<le> - 3"
  using exp_down_le0 [of 1019 "2 * (2 * (2 * \<bar>x\<bar>))"]
  by (simp add: exponent_def exp_down_numeral)

lemma exponent_half_one: "1 / 2 \<le> x \<Longrightarrow> x < 1 \<Longrightarrow> exponent x = - 1"
  by (simp add: exponent_def exp_down_numeral)

lemma exponent_quarter_half: "1 / 4 \<le> x \<Longrightarrow> x < 1 / 2 \<Longrightarrow> exponent x = - 2"
  by (simp add: exponent_def exp_down_numeral)

lemma ulp_half_one: "1 / 2 \<le> x \<Longrightarrow> x < 1 \<Longrightarrow> ulp x = 1 / 2 ^ 53"
  by (simp add: ulp_def exponent_half_one power_int_minus inverse_eq_divide)

lemma ulp_quarter_half: "1 / 4 \<le> x \<Longrightarrow> x < 1 / 2 \<Longrightarrow> ulp x = 1 / 2 ^ 54"
  by (simp add: ulp_def exponent_quarter_half power_int_minus inverse_eq_divide)

lemma rnd_Num_nearest: "rnd x = Num y \<Longrightarrow> nearest x = y"
  by (simp add: rnd_def split: if_splits)

text \<open>A double below 1 is at most \<open>1 - 2 ^ -53\<close>.\<close>

lemma double_below_one:
  assumes "rnd r = Num r" and "r < 1"
  shows "r \<le> 1 - 1 / 2 ^ 53"
proof (cases "r < 1 / 2")
  case True
  then show ?thesis by simp
next
  case False
  then have half: "1 / 2 \<le> r" by simp
  have u: "ulp r = 1 / 2 ^ 53"
    using half assms(2) by (rule ulp_half_one)
  have "nearest r = r"
    using assms(1) by (rule rnd_Num_nearest)
  then have "of_int (round_even (r / ulp r)) = r * 2 ^ 53"
    by (simp add: nearest_def u)
  moreover have "r * 2 ^ 53 < 2 ^ 53"
    using assms(2) by simp
  ultimately have "(of_int (round_even (r / ulp r)) :: real) < of_int (2 ^ 53)"
    by simp
  then have "round_even (r / ulp r) < 2 ^ 53"
    by (simp only: of_int_less_iff)
  then have "round_even (r / ulp r) \<le> 2 ^ 53 - 1"
    by simp
  then have "(of_int (round_even (r / ulp r)) :: real) \<le> of_int (2 ^ 53 - 1)"
    by (simp only: of_int_le_iff)
  with \<open>of_int (round_even (r / ulp r)) = r * 2 ^ 53\<close> have "r * 2 ^ 53 \<le> 2 ^ 53 - 1"
    by simp
  then show ?thesis
    by (simp add: field_simps)
qed

lemma product_round:
  assumes "0 \<le> r" and "r \<le> 1 - 1 / 2 ^ 53"
  shows "0 \<le> nearest (r * (5404319552844595 / 2 ^ 54))"
    and "nearest (r * (5404319552844595 / 2 ^ 54)) \<le> 5404319552844594 / 2 ^ 54"
    and "\<bar>nearest (r * (5404319552844595 / 2 ^ 54)) - r * (5404319552844595 / 2 ^ 54)\<bar>
           \<le> 1 / 2 ^ 55"
proof -
  define p where "p = r * (5404319552844595 / 2 ^ 54)"
  have p0: "0 \<le> p"
    using assms(1) by (simp add: p_def)
  have "p \<le> (1 - 1 / 2 ^ 53) * (5404319552844595 / 2 ^ 54)"
    unfolding p_def using assms(2) by (rule mult_right_mono) simp
  also have "\<dots> < (5404319552844594 + 1 / 2) / 2 ^ 54"
    by simp
  finally have pub: "p < (5404319552844594 + 1 / 2) / 2 ^ 54" .
  then have phalf: "p < 1 / 2"
    by simp
  show "0 \<le> nearest (r * (5404319552844595 / 2 ^ 54))"
    using p0 unfolding p_def by (rule nearest_nonneg)
  have "nearest p \<le> 5404319552844594 / 2 ^ 54"
  proof (cases "p < 1 / 4")
    case True
    then have "exponent p \<le> - 3"
      using p0 by (intro exponent_lt_quarter) simp
    then have "exponent p - 52 \<le> - 2"
      by simp
    moreover have "p \<le> 2 powi (- 2)"
      using True by (simp add: power_int_minus)
    ultimately have "nearest p \<le> 2 powi (- 2)"
      by (intro nearest_le_pow)
    then show ?thesis
      by (simp add: power_int_minus)
  next
    case False
    then have q: "1 / 4 \<le> p" by simp
    have u: "ulp p = 1 / 2 ^ 54"
      using q phalf by (rule ulp_quarter_half)
    have "p < (of_int 5404319552844594 + 1 / 2) * ulp p"
      using pub by (simp add: u)
    then have "nearest p \<le> of_int 5404319552844594 * ulp p"
      by (rule nearest_le_grid)
    then show ?thesis
      by (simp add: u)
  qed
  then show "nearest (r * (5404319552844595 / 2 ^ 54)) \<le> 5404319552844594 / 2 ^ 54"
    by (simp only: p_def)
  have "exponent p \<le> - 2"
    using p0 phalf by (intro exponent_lt_half) simp
  then have "ulp p \<le> 2 powi (- 2 - 52)"
    by (rule ulp_le)
  then have "ulp p \<le> 1 / 2 ^ 54"
    by (simp add: power_int_minus inverse_eq_divide)
  with nearest_error [of p] have "\<bar>nearest p - p\<bar> \<le> 1 / 2 ^ 55"
    by simp
  then show "\<bar>nearest (r * (5404319552844595 / 2 ^ 54)) - r * (5404319552844595 / 2 ^ 54)\<bar>
           \<le> 1 / 2 ^ 55"
    by (simp only: p_def)
qed

lemma sum_round:
  assumes "0 \<le> a" and "a \<le> 5404319552844594 / 2 ^ 54"
  shows "6305039478318694 / 2 ^ 53 \<le> nearest (a + 6305039478318694 / 2 ^ 53)"
    and "nearest (a + 6305039478318694 / 2 ^ 53) \<le> 1 - 1 / 2 ^ 53"
    and "\<bar>nearest (a + 6305039478318694 / 2 ^ 53) - (a + 6305039478318694 / 2 ^ 53)\<bar>
           \<le> 1 / 2 ^ 54"
proof -
  define s where "s = a + 6305039478318694 / 2 ^ 53"
  have lo: "6305039478318694 / 2 ^ 53 \<le> s"
    using assms(1) by (simp add: s_def)
  have hi: "s \<le> 1 - 1 / 2 ^ 53"
    using assms(2) by (simp add: s_def)
  have half: "1 / 2 \<le> s" and one: "s < 1"
    using lo hi by simp_all
  have u: "ulp s = 1 / 2 ^ 53"
    using half one by (rule ulp_half_one)
  have "(of_int 6305039478318694 - 1 / 2) * ulp s < s"
    using lo by (simp add: u)
  then have "of_int 6305039478318694 * ulp s \<le> nearest s"
    by (rule nearest_ge_grid)
  then have "6305039478318694 / 2 ^ 53 \<le> nearest s"
    by (simp add: u)
  then show "6305039478318694 / 2 ^ 53 \<le> nearest (a + 6305039478318694 / 2 ^ 53)"
    by (simp only: s_def)
  have "s < (of_int (2 ^ 53 - 1) + 1 / 2) * ulp s"
    using hi by (simp add: u)
  then have "nearest s \<le> of_int (2 ^ 53 - 1) * ulp s"
    by (rule nearest_le_grid)
  then have "nearest s \<le> 1 - 1 / 2 ^ 53"
    by (simp add: u)
  then show "nearest (a + 6305039478318694 / 2 ^ 53) \<le> 1 - 1 / 2 ^ 53"
    by (simp only: s_def)
  from nearest_error [of s] have "\<bar>nearest s - s\<bar> \<le> 1 / 2 ^ 54"
    by (simp add: u)
  then show "\<bar>nearest (a + 6305039478318694 / 2 ^ 53) - (a + 6305039478318694 / 2 ^ 53)\<bar>
           \<le> 1 / 2 ^ 54"
    by (simp only: s_def)
qed

lemma rnd_03: "rnd 0.3 = Num (5404319552844595 / 2 ^ 54)"
proof -
  have "rnd (3 / 10) = Num (nearest (3 / 10))"
    by (rule rnd_unit) simp
  then show ?thesis
    by (simp add: nearest_03)
qed

lemma rnd_07: "rnd 0.7 = Num (6305039478318694 / 2 ^ 53)"
proof -
  have "rnd (7 / 10) = Num (nearest (7 / 10))"
    by (rule rnd_unit) simp
  then show ?thesis
    by (simp add: nearest_07)
qed

lemma confidence_double_unfold:
  "confidence_double r
     = nearest (nearest (r * (5404319552844595 / 2 ^ 54)) + 6305039478318694 / 2 ^ 53)"
proof -
  have "nearest 0.3 = (5404319552844595 / 2 ^ 54 :: real)"
    using nearest_03 by simp
  moreover have "nearest 0.7 = (6305039478318694 / 2 ^ 53 :: real)"
    using nearest_07 by simp
  ultimately show ?thesis
    by (simp only: confidence_double_def)
qed

lemma abs_sum_plain:
  fixes a b t e :: real
  assumes "\<bar>a\<bar> \<le> A" "\<bar>b\<bar> \<le> B" "\<bar>t\<bar> \<le> T" "\<bar>e\<bar> \<le> E"
  shows "\<bar>a + b + t + e\<bar> \<le> A + B + T + E"
  using assms by linarith

lemma confidence_error_sum:
  fixes c s pr p r :: real
  assumes "\<bar>c - (pr + d7)\<bar> \<le> 1 / 2 ^ 54" and "\<bar>pr - r * d3\<bar> \<le> 1 / 2 ^ 55"
    and "\<bar>r * (d3 - 3 / 10)\<bar> \<le> 1 / 2 ^ 55" and "\<bar>d7 - 7 / 10\<bar> \<le> 1 / 2 ^ 54"
  shows "\<bar>c - (r * (3 / 10) + 7 / 10)\<bar> \<le> 1 / 2 ^ 52"
proof -
  have "c - (r * (3 / 10) + 7 / 10)
          = (c - (pr + d7)) + (pr - r * d3) + r * (d3 - 3 / 10) + (d7 - 7 / 10)"
    by (simp add: algebra_simps)
  moreover have "\<bar>(c - (pr + d7)) + (pr - r * d3) + r * (d3 - 3 / 10) + (d7 - 7 / 10)\<bar>
      \<le> 1 / 2 ^ 54 + 1 / 2 ^ 55 + 1 / 2 ^ 55 + 1 / 2 ^ 54"
    by (rule abs_sum_plain [OF assms])
  moreover have "(1 / 2 ^ 54 + 1 / 2 ^ 55 + 1 / 2 ^ 55 + 1 / 2 ^ 54 :: real) \<le> 1 / 2 ^ 52"
    by simp
  ultimately show ?thesis
    by (simp only:)
qed

lemma confidence_double_bounds:
  assumes "0 \<le> r" and "r \<le> 1 - 1 / 2 ^ 53"
  shows "js_add (js_mul (Num r) (rnd 0.3)) (rnd 0.7) = Num (confidence_double r)"
    and "6305039478318694 / 2 ^ 53 \<le> confidence_double r"
    and "confidence_double r \<le> 1 - 1 / 2 ^ 53"
    and "\<bar>confidence_double r - (r * 0.3 + 0.7)\<bar> \<le> 1 / 2 ^ 52"
proof -
  let ?p = "r * (5404319552844595 / 2 ^ 54)"
  let ?s = "nearest ?p + 6305039478318694 / 2 ^ 53"
  note pr = product_round [OF assms]
  note sr = sum_round [OF pr(1) pr(2)]
  have "\<bar>nearest ?p\<bar> \<le> 1"
    using pr(1) pr(2) by simp
  then have "\<bar>nearest ?p\<bar> < 2 ^ 1024"
    by (rule le_less_trans) simp
  then have mul: "rnd ?p = Num (nearest ?p)"
    by (rule rnd_finite)
  have "\<bar>nearest ?s\<bar> \<le> 1"
    using sr(1) sr(2) by simp
  then have "\<bar>nearest ?s\<bar> < 2 ^ 1024"
    by (rule le_less_trans) simp
  then have add: "rnd ?s = Num (nearest ?s)"
    by (rule rnd_finite)
  show "js_add (js_mul (Num r) (rnd 0.3)) (rnd 0.7) = Num (confidence_double r)"
    unfolding rnd_03 rnd_07 confidence_double_unfold by (simp only: js_mul.simps js_add.simps mul add)
  show "6305039478318694 / 2 ^ 53 \<le> confidence_double r"
    unfolding confidence_double_unfold by (rule sr(1))
  show "confidence_double r \<le> 1 - 1 / 2 ^ 53"
    unfolding confidence_double_unfold by (rule sr(2))
  have "\<bar>r * (5404319552844595 / 2 ^ 54 - 3 / 10)\<bar> = r * (1 / (5 * 2 ^ 54))"
    using assms(1) by (simp add: abs_mult)
  also have "\<dots> \<le> 1 * (1 / (5 * 2 ^ 54))"
    using assms(2) by (intro mult_right_mono) simp_all
  also have "\<dots> \<le> 1 / 2 ^ 55"
    by simp
  finally have t: "\<bar>r * (5404319552844595 / 2 ^ 54 - 3 / 10)\<bar> \<le> 1 / 2 ^ 55" .
  have e: "\<bar>6305039478318694 / 2 ^ 53 - 7 / 10\<bar> \<le> (1 / 2 ^ 54 :: real)"
    by simp
  have "\<bar>confidence_double r - (r * (3 / 10) + 7 / 10)\<bar> \<le> 1 / 2 ^ 52"
    unfolding confidence_double_unfold
    by (rule confidence_error_sum [OF sr(3) pr(3) t e])
  then show "\<bar>confidence_double r - (r * 0.3 + 0.7)\<bar> \<le> 1 / 2 ^ 52"
    by simp
qed

lemma nearest_half: "nearest (1 / 2) = 1 / 2"
proof -
  have e: "exponent (1 / 2) = - 1"
    by (simp add: exponent_def exp_down_numeral)
  have "round_even (1 / 2 / 2 powi (- 1 - 52)) = 2 ^ 52"
    by (simp add: round_even_def Let_def power_int_minus)
  from nearest_eval [OF e this] show ?thesis
    by (simp add: power_int_minus inverse_eq_divide)
qed

lemma nearest_product_quarter:
  "nearest (1 / 4 * (5404319552844595 / 2 ^ 54)) = 5404319552844595 / 2 ^ 56"
proof -
  have e: "exponent (1 / 4 * (5404319552844595 / 2 ^ 54)) = - 4"
    by (simp add: exponent_def exp_down_numeral)
  have "round_even (1 / 4 * (5404319552844595 / 2 ^ 54) / 2 powi (- 4 - 52)) = 5404319552844595"
    by (simp add: round_even_def Let_def power_int_minus)
  from nearest_eval [OF e this] show ?thesis
    by (simp add: power_int_minus inverse_eq_divide)
qed

lemma nearest_sum_quarter:
  "nearest (5404319552844595 / 2 ^ 56 + 6305039478318694 / 2 ^ 53) = 1745144855606067 / 2 ^ 51"
proof -
  have e: "exponent (5404319552844595 / 2 ^ 56 + 6305039478318694 / 2 ^ 53) = - 1"
    by (simp add: exponent_def exp_down_numeral)
  have "round_even ((5404319552844595 / 2 ^ 56 + 6305039478318694 / 2 ^ 53) / 2 powi (- 1 - 52))
          = 6980579422424268"
    by (simp add: round_even_def Let_def power_int_minus)
  from nearest_eval [OF e this] show ?thesis
    by (simp add: power_int_minus inverse_eq_divide)
qed

lemma confidence_double_quarter: "confidence_double (1 / 4) = 1745144855606067 / 2 ^ 51"
  unfolding confidence_double_unfold nearest_product_quarter nearest_sum_quarter ..

lemma nearest_product_half:
  "nearest (1 / 2 * (5404319552844595 / 2 ^ 54)) = 5404319552844595 / 2 ^ 55"
proof -
  have e: "exponent (1 / 2 * (5404319552844595 / 2 ^ 54)) = - 3"
    by (simp add: exponent_def exp_down_numeral)
  have "round_even (1 / 2 * (5404319552844595 / 2 ^ 54) / 2 powi (- 3 - 52)) = 5404319552844595"
    by (simp add: round_even_def Let_def power_int_minus)
  from nearest_eval [OF e this] show ?thesis
    by (simp add: power_int_minus inverse_eq_divide)
qed

lemma nearest_sum_half:
  "nearest (5404319552844595 / 2 ^ 55 + 6305039478318694 / 2 ^ 53) = 7656119366529843 / 2 ^ 53"
proof -
  have e: "exponent (5404319552844595 / 2 ^ 55 + 6305039478318694 / 2 ^ 53) = - 1"
    by (simp add: exponent_def exp_down_numeral)
  have "round_even ((5404319552844595 / 2 ^ 55 + 6305039478318694 / 2 ^ 53) / 2 powi (- 1 - 52))
          = 7656119366529843"
    by (simp add: round_even_def Let_def power_int_minus)
  from nearest_eval [OF e this] show ?thesis
    by (simp add: power_int_minus inverse_eq_divide)
qed

lemma confidence_double_half: "confidence_double (1 / 2) = 7656119366529843 / 2 ^ 53"
  unfolding confidence_double_unfold nearest_product_half nearest_sum_half ..

lemma nearest_07_fixed:
  "nearest (6305039478318694 / 2 ^ 53) = 6305039478318694 / 2 ^ 53"
proof -
  have e: "exponent (6305039478318694 / 2 ^ 53) = - 1"
    by (simp add: exponent_def exp_down_numeral)
  have "round_even (6305039478318694 / 2 ^ 53 / 2 powi (- 1 - 52)) = 6305039478318694"
    by (simp add: round_even_def Let_def power_int_minus)
  from nearest_eval [OF e this] show ?thesis
    by (simp add: power_int_minus inverse_eq_divide)
qed

lemma confidence_double_zero: "confidence_double 0 = 6305039478318694 / 2 ^ 53"
proof -
  have a: "nearest (0 * (5404319552844595 / 2 ^ 54)) + 6305039478318694 / 2 ^ 53
             = (6305039478318694 / 2 ^ 53 :: real)"
    by (simp add: nearest_zero)
  show ?thesis
    unfolding confidence_double_unfold a nearest_07_fixed ..
qed

lemma confidence_analyze:
  "confidence (analyzePosture activity random random2 now)
     = js_add (js_mul (Num random2) (rnd 0.3)) (rnd 0.7)"
  by (simp add: analyzePosture_def)

text \<open>
  C10, as stated with exact arithmetic, fails: for the draw \<open>r = 0.25\<close> the code
  returns the double \<open>0.7749999999999999\<close>, not \<open>0.25 * 0.3 + 0.7 = 0.775\<close>, and
  for \<open>r = 0\<close> it returns the double \<^verbatim>\<open>0.7\<close>, which is below \<open>7/10\<close>.
\<close>

theorem confidence_not_exact:
  "confidence (analyzePosture Squat (1 / 4) (1 / 4) 0) = Num (1745144855606067 / 2 ^ 51) \<and>
   (1745144855606067 / 2 ^ 51 :: real) \<noteq> 1 / 4 * 0.3 + 0.7 \<and>
   confidence (analyzePosture Squat 0 0 0) = Num (6305039478318694 / 2 ^ 53) \<and>
   (6305039478318694 / 2 ^ 53 :: real) < 0.7"
proof -
  have "js_add (js_mul (Num (1 / 4)) (rnd 0.3)) (rnd 0.7) = Num (confidence_double (1 / 4))"
    by (rule confidence_double_bounds) simp_all
  then have a: "confidence (analyzePosture Squat (1 / 4) (1 / 4) 0)
               = Num (1745144855606067 / 2 ^ 51)"
    by (simp only: confidence_analyze confidence_double_quarter)
  have "js_add (js_mul (Num 0) (rnd 0.3)) (rnd 0.7) = Num (confidence_double 0)"
    by (rule confidence_double_bounds) simp_all
  then have b: "confidence (analyzePosture Squat 0 0 0) = Num (6305039478318694 / 2 ^ 53)"
    by (simp only: confidence_analyze confidence_double_zero)
  have "(1745144855606067 / 2 ^ 51 :: real) \<noteq> 1 / 4 * 0.3 + 0.7"
    and "(6305039478318694 / 2 ^ 53 :: real) < 0.7"
    by simp_all
  with a b show ?thesis
    by blast
qed

text \<open>
  C10, amended. For every activity and every draw \<open>r\<close> that is a double in
  \<open>[0, 1)\<close>, the confidence that analyzePosture returns is the value of
  \<open>r * 0.3 + 0.7\<close> computed in doubles (the literals, the product and the sum each
  rounded to the nearest double). It is within \<open>2 ^ -52\<close> of the exact value, at
  least the double \<^verbatim>\<open>0.7\<close> and at most \<open>1 - 2 ^ -53\<close>, so it lies in \<open>[0, 1]\<close>,
  below 1, and never needs clamping.
\<close>

theorem analyzePosture_confidence_double:
  "rnd random2 = Num random2 \<Longrightarrow> 0 \<le> random2 \<Longrightarrow> random2 < 1 \<Longrightarrow>
     confidence (analyzePosture activity random random2 now) = Num (confidence_double random2) \<and>
     \<bar>confidence_double random2 - (random2 * 0.3 + 0.7)\<bar> \<le> 1 / 2 ^ 52 \<and>
     nearest 0.7 \<le> confidence_double random2 \<and>
     confidence_double random2 \<le> 1 - 1 / 2 ^ 53 \<and>
     confidence_double random2 < 1 \<and>
     0 \<le> confidence_double random2 \<and> confidence_double random2 \<le> 1"
proof -
  assume dbl: "rnd random2 = Num random2" and r0: "0 \<le> random2" and r1: "random2 < 1"
  have hi: "random2 \<le> 1 - 1 / 2 ^ 53"
    using dbl r1 by (rule double_below_one)
  note b = confidence_double_bounds [OF r0 hi]
  have "confidence (analyzePosture activity random random2 now) = Num (confidence_double random2)"
    unfolding confidence_analyze by (rule b(1))
  moreover have "nearest 0.7 \<le> confidence_double random2"
    using b(2) nearest_07 by simp
  moreover have "confidence_double random2 < 1" "0 \<le> confidence_double random2"
    "confidence_double random2 \<le> 1"
    using b(2) b(3) by simp_all
  ultimately show ?thesis
    using b(3) b(4) by blast
qed

theorem analyzePosture_confidence_double_witness:
  "rnd (1 / 2) = Num (1 / 2) \<and> (0::real) \<le> 1 / 2 \<and> (1 / 2 :: real) < 1 \<and>
   confidence (analyzePosture DeskSitting (1 / 4) (1 / 2) 0) = Num (7656119366529843 / 2 ^ 53) \<and>
   (7656119366529843 / 2 ^ 53 :: real) < 1"
proof -
  have dbl: "rnd (1 / 2) = Num (1 / 2)"
    using rnd_unit [of "1 / 2"] by (simp add: nearest_half)
  have r0: "(0::real) \<le> 1 / 2" and r1: "(1 / 2 :: real) < 1"
    by simp_all
  from analyzePosture_confidence_double [OF dbl r0 r1, of DeskSitting "1 / 4" 0]
  have "confidence (analyzePosture DeskSitting (1 / 4) (1 / 2) 0) = Num (7656119366529843 / 2 ^ 53)"
    and "(7656119366529843 / 2 ^ 53 :: real) < 1"
    by (simp_all only: confidence_double_half)
  with dbl r0 r1 show ?thesis
    by blast
qed

end
